theory Spec2Isabelle
  imports Main "HOL-Library.Sublist" "HOL-Library.AList"
begin

section \<open>Values of a parsed document\<close>

text \<open>
  The YAML decoder hands the program Go values of type \<open>interface{}\<close>: \<open>nil\<close>, a string, a
  number, a boolean, a slice \<open>[]interface{}\<close> or a map \<open>map[interface{}]interface{}\<close>.
  The program looks at them with \<open>reflect.TypeOf(v).Kind()\<close>, so every kind the decoder can
  produce is a constructor here. A floating point number behaves like \<open>YInt\<close> in all the
  code below (its kind is none of Slice, Map, String), so it has no constructor of its own.
  A Go map has no order; it is an association list whose order stands for the order in
  which \<open>range\<close> happens to visit the keys in one run.
\<close>

datatype key = KStr string | KInt int | KBool bool

datatype node =
    YNull
  | YStr string
  | YInt int
  | YBool bool
  | YSeq "node list"
  | YMap "(key \<times> node) list"

section \<open>Outcomes and events\<close>

text \<open>
  A Go call returns, panics (a nil dereference), or ends the process (\<open>logger.Fatal\<close> calls
  \<open>os.Exit\<close>). What the program logs, prints and asks of its libraries is recorded as a
  list of events, oldest first.
\<close>

datatype 'a res = Ok 'a | Panic | Exit

datatype level = InfoLevel | WarnLevel | ErrorLevel | FatalLevel

datatype event =
    Log level string
  | Stdout string
  | EncryptCall string
  | DecryptCall string
  | KeyInfoCall string
  | UnmarshalCall string

definition andThen :: "'a res \<times> event list \<Rightarrow> ('a \<Rightarrow> 'b res \<times> event list) \<Rightarrow> 'b res \<times> event list" where
  "andThen m f =
     (case m of
        (Ok a, t) \<Rightarrow> (case f a of (r, t') \<Rightarrow> (r, t @ t'))
      | (Panic, t) \<Rightarrow> (Panic, t)
      | (Exit, t) \<Rightarrow> (Exit, t))"

lemma andThen_cong [fundef_cong]:
  assumes "m = m'" and "\<And>a t. m' = (Ok a, t) \<Longrightarrow> f a = f' a"
  shows "andThen m f = andThen m' f'"
  using assms by (auto simp: andThen_def split: prod.splits res.splits)

section \<open>The libraries the program calls\<close>

text \<open>
  The OpenPGP library, the YAML codec and the directory walk are not part of the program.
  They are parameters: one function per library entry point, returning whichever of the
  outcomes the calling code distinguishes.
\<close>

datatype dec_outcome =
    OpenFailed string
  | ReadRingFailed string
  | RingEmpty
  | DecodeNil
  | WrongBlockType string
  | ReadMessageFailed string
  | ReadBodyFailed string
  | Plain string

record env =
  pgp_encrypt :: "string \<Rightarrow> string + string"
  pgp_decrypt :: "string \<Rightarrow> dec_outcome"
  pgp_keyinfo :: "string \<Rightarrow> string + string"
  SecretKeyRing :: string
  yaml_unmarshal :: "string \<Rightarrow> (string \<times> node) list \<times> string option"
  yaml_marshal :: "(string \<times> node) list \<Rightarrow> string + string"
  getwd :: "string + string"
  mkdirAll :: "string \<Rightarrow> string option"
  walk :: "string \<Rightarrow> (string \<times> string \<times> bool) list option"

section \<open>Strings\<close>

definition Contains :: "string \<Rightarrow> string \<Rightarrow> bool" where
  "Contains s substr = sublist substr s"

definition pgpHeader :: string where
  "pgpHeader = ''-----BEGIN PGP MESSAGE-----''"

definition encrypt :: string where "encrypt = ''encrypt''"
definition decrypt :: string where "decrypt = ''decrypt''"
definition validate :: string where "validate = ''validate''"

definition isEncrypted :: "string \<Rightarrow> bool" where
  "isEncrypted str = Contains str pgpHeader"

text \<open>
  The spec's words for what the walk recognises: the header occurs somewhere in the
  string.
\<close>

definition header_occurs_in :: "string \<Rightarrow> bool" where
  "header_occurs_in str = (\<exists>before after. str = before @ pgpHeader @ after)"

definition validAction :: "string \<Rightarrow> bool" where
  "validAction action = (action = encrypt \<or> action = decrypt \<or> action = validate)"

section \<open>The PGP wrappers (pki.go)\<close>

text \<open>
  \<open>EncryptSecret\<close> ends the process on every failure of the library. \<open>DecryptSecret\<close>
  returns the ciphertext it was given together with an error on every failure it checks;
  it reads \<open>block.Type\<close> before it looks at the error of \<open>armor.Decode\<close>, so a nil block
  is a panic.
\<close>

definition EncryptSecret :: "env \<Rightarrow> string \<Rightarrow> string res \<times> event list" where
  "EncryptSecret e plainText =
     (case pgp_encrypt e plainText of
        Inl msg \<Rightarrow> (Exit, [EncryptCall plainText, Log FatalLevel msg])
      | Inr cipherText \<Rightarrow> (Ok cipherText, [EncryptCall plainText]))"

definition DecryptSecret :: "env \<Rightarrow> string \<Rightarrow> (string \<times> string option) res \<times> event list" where
  "DecryptSecret e cipherText =
     (case pgp_decrypt e cipherText of
        OpenFailed m \<Rightarrow>
          (Ok (cipherText, Some (''unable to open secring: '' @ m)), [DecryptCall cipherText])
      | ReadRingFailed m \<Rightarrow>
          (Ok (cipherText, Some (''cannot read private keys: '' @ m)), [DecryptCall cipherText])
      | RingEmpty \<Rightarrow>
          (Ok (cipherText, Some (SecretKeyRing e @ '' is empty!'')), [DecryptCall cipherText])
      | DecodeNil \<Rightarrow> (Panic, [DecryptCall cipherText])
      | WrongBlockType m \<Rightarrow>
          (Ok (cipherText, Some (''block type is not PGP MESSAGE: '' @ m)), [DecryptCall cipherText])
      | ReadMessageFailed m \<Rightarrow>
          (Ok (cipherText, Some (''unable to read PGP message: '' @ m)), [DecryptCall cipherText])
      | ReadBodyFailed m \<Rightarrow>
          (Ok (cipherText, Some (''unable to read message body: '' @ m)), [DecryptCall cipherText])
      | Plain bytes \<Rightarrow> (Ok (bytes, None), [DecryptCall cipherText]))"

section \<open>The leaf operations (sls.go)\<close>

definition decryptVal :: "env \<Rightarrow> string \<Rightarrow> string res \<times> event list" where
  "decryptVal e strVal =
     (if isEncrypted strVal then
        andThen (DecryptSecret e strVal) (\<lambda>(plainText, err).
          case err of
            Some m \<Rightarrow> (Ok plainText, [Log ErrorLevel (''error decrypting value: '' @ m)])
          | None \<Rightarrow> (Ok plainText, []))
      else (Ok strVal, []))"

definition keyInfo :: "env \<Rightarrow> string \<Rightarrow> string res \<times> event list" where
  "keyInfo e val =
     (if \<not> isEncrypted val then (Ok '''', [])
      else (case pgp_keyinfo e val of
              Inl msg \<Rightarrow> (Exit, [KeyInfoCall val, Log FatalLevel msg])
            | Inr info \<Rightarrow> (Ok info, [KeyInfoCall val])))"

section \<open>The tree walk (sls.go)\<close>

text \<open>
  \<open>doSlice\<close> and \<open>doMap\<close> are loops that build \<open>things\<close> and \<open>ret\<close>; the loop variables
  are the last argument of \<open>doSlice_loop\<close> and \<open>doMap_loop\<close>. \<open>reflect.TypeOf(nil)\<close> is
  nil, and \<open>Kind\<close> called on it panics: \<open>doSlice\<close> makes that call on every item,
  \<open>doMap\<close> returns \<open>ret\<close> as it stands when it meets a nil value. A value whose kind is
  none of Slice, Map, String matches no case of the switch, and nothing is stored for it.
\<close>

function doSlice_loop :: "env \<Rightarrow> node list \<Rightarrow> string \<Rightarrow> node list \<Rightarrow> node list res \<times> event list"
  and doMap_loop :: "env \<Rightarrow> (key \<times> node) list \<Rightarrow> string \<Rightarrow> (key \<times> node) list
                       \<Rightarrow> (key \<times> node) list res \<times> event list"
where
  "doSlice_loop e [] action things = (Ok things, [])"
| "doSlice_loop e (YNull # rest) action things = (Panic, [])"
| "doSlice_loop e (YSeq item # rest) action things =
     andThen (doSlice_loop e item action [])
       (\<lambda>r. doSlice_loop e rest action (things @ [YSeq r]))"
| "doSlice_loop e (YMap item # rest) action things =
     andThen (doMap_loop e item action [])
       (\<lambda>r. doSlice_loop e rest action (things @ [YMap r]))"
| "doSlice_loop e (YStr strVal # rest) action things =
     andThen
       (if action = decrypt then andThen (decryptVal e strVal) (\<lambda>p. (Ok (YStr p), []))
        else if action = encrypt then
          (if \<not> isEncrypted strVal then andThen (EncryptSecret e strVal) (\<lambda>c. (Ok (YStr c), []))
           else (Ok YNull, []))
        else if action = validate then andThen (keyInfo e strVal) (\<lambda>k. (Ok (YStr k), []))
        else (Ok YNull, []))
       (\<lambda>thing. doSlice_loop e rest action (things @ [thing]))"
| "doSlice_loop e (YInt i # rest) action things = doSlice_loop e rest action things"
| "doSlice_loop e (YBool b # rest) action things = doSlice_loop e rest action things"
| "doMap_loop e [] action ret = (Ok ret, [])"
| "doMap_loop e ((k, YNull) # rest) action ret = (Ok ret, [])"
| "doMap_loop e ((k, YSeq val) # rest) action ret =
     andThen (doSlice_loop e val action [])
       (\<lambda>r. doMap_loop e rest action (AList.update k (YSeq r) ret))"
| "doMap_loop e ((k, YMap val) # rest) action ret =
     andThen (doMap_loop e val action [])
       (\<lambda>r. doMap_loop e rest action (AList.update k (YMap r) ret))"
| "doMap_loop e ((k, YStr strVal) # rest) action ret =
     andThen
       (if action = decrypt then andThen (decryptVal e strVal) (\<lambda>p. (Ok (YStr p), []))
        else if action = encrypt then
          (if \<not> isEncrypted strVal then andThen (EncryptSecret e strVal) (\<lambda>c. (Ok (YStr c), []))
           else (Ok (YStr strVal), []))
        else if action = validate then andThen (keyInfo e strVal) (\<lambda>k. (Ok (YStr k), []))
        else (Ok (YStr strVal), []))
       (\<lambda>val. doMap_loop e rest action (AList.update k val ret))"
| "doMap_loop e ((k, YInt i) # rest) action ret = doMap_loop e rest action ret"
| "doMap_loop e ((k, YBool b) # rest) action ret = doMap_loop e rest action ret"
  by pat_completeness auto

termination
  by (relation "measure (case_sum (\<lambda>(e, items, action, things). size_list size items)
                                  (\<lambda>(e, items, action, ret). size_list (size_prod (\<lambda>k. 0) size) items))")
     auto

definition doSlice :: "env \<Rightarrow> node list \<Rightarrow> string \<Rightarrow> node res \<times> event list" where
  "doSlice e vals action = andThen (doSlice_loop e vals action []) (\<lambda>things. (Ok (YSeq things), []))"

definition doMap :: "env \<Rightarrow> (key \<times> node) list \<Rightarrow> string \<Rightarrow> node res \<times> event list" where
  "doMap e vals action = andThen (doMap_loop e vals action []) (\<lambda>ret. (Ok (YMap ret), []))"

definition ProcessValues :: "env \<Rightarrow> node \<Rightarrow> string \<Rightarrow> node res \<times> event list" where
  "ProcessValues e vals action =
     (case vals of
        YNull \<Rightarrow> (Ok YNull, [])
      | YSeq items \<Rightarrow> doSlice e items action
      | YMap m \<Rightarrow> doMap e m action
      | YStr strVal \<Rightarrow>
          (if action = decrypt then andThen (decryptVal e strVal) (\<lambda>p. (Ok (YStr p), []))
           else if action = encrypt then
             (if \<not> isEncrypted strVal then andThen (EncryptSecret e strVal) (\<lambda>c. (Ok (YStr c), []))
              else (Ok (YStr strVal), []))
           else if action = validate then andThen (keyInfo e strVal) (\<lambda>k. (Ok (YStr k), []))
           else (Ok (YStr strVal), []))
      | YInt i \<Rightarrow> (Ok YNull, [])
      | YBool b \<Rightarrow> (Ok YNull, []))"

section \<open>Files\<close>

text \<open>
  The file system is a map from paths to what \<open>os.Stat\<close> finds there: a regular file with
  its content, a regular file that cannot be opened (\<open>Protected\<close>), a directory, or a device
  such as \<open>/dev/stdin\<close> with the bytes read from it. Paths are absolute and clean, so
  \<open>filepath.Abs\<close> returns its argument. \<open>mkdirAll\<close> of the environment answers for
  \<open>os.MkdirAll\<close> on the directory of a path, and \<open>walk\<close> lists the entries
  \<open>filepath.Walk\<close> visits as (path, name, is a directory); it is \<open>None\<close> when the walk
  hands the callback a nil \<open>FileInfo\<close>, on which \<open>f.IsDir()\<close> panics. The callback always
  returns nil, so the walk itself never returns an error.
\<close>

datatype fnode = Regular string | Protected | Directory | Special string

type_synonym files = "string \<Rightarrow> fnode option"

definition andThenW :: "'a res \<times> files \<times> event list \<Rightarrow> ('a \<Rightarrow> files \<Rightarrow> 'b res \<times> files \<times> event list)
                          \<Rightarrow> 'b res \<times> files \<times> event list" where
  "andThenW m f =
     (case m of
        (Ok a, fs, t) \<Rightarrow> (case f a fs of (r, fs', t') \<Rightarrow> (r, fs', t @ t'))
      | (Panic, fs, t) \<Rightarrow> (Panic, fs, t)
      | (Exit, fs, t) \<Rightarrow> (Exit, fs, t))"

lemma andThenW_cong [fundef_cong]:
  assumes "m = m'" and "\<And>a fs t. m' = (Ok a, fs, t) \<Longrightarrow> f a fs = f' a fs"
  shows "andThenW m f = andThenW m' f'"
  using assms by (auto simp: andThenW_def split: prod.splits res.splits)

definition pure :: "files \<Rightarrow> 'a res \<times> event list \<Rightarrow> 'a res \<times> files \<times> event list" where
  "pure fs m = (fst m, fs, snd m)"

definition newline :: char where
  "newline = CHR 0x0A"

fun Replace1 :: "string \<Rightarrow> string \<Rightarrow> string \<Rightarrow> string" where
  "Replace1 [] old new = (if old = [] then new else [])"
| "Replace1 (c # s) old new =
     (if prefix old (c # s) then new @ drop (length old) (c # s) else c # Replace1 s old new)"

definition shortFileName :: "env \<Rightarrow> string \<Rightarrow> string res \<times> event list" where
  "shortFileName e file =
     (case getwd e of
        Inl err \<Rightarrow> (Exit, [Log FatalLevel err])
      | Inr pwd \<Rightarrow> (Ok (Replace1 file (pwd @ ''/'') ''''), []))"

definition CheckForFile :: "files \<Rightarrow> string \<Rightarrow> string option" where
  "CheckForFile fs filePath =
     (case fs filePath of
        None \<Rightarrow> Some (''cannot stat '' @ filePath)
      | Some Directory \<Rightarrow> Some (filePath @ '' is a directory'')
      | Some _ \<Rightarrow> None)"

definition CheckForDir :: "files \<Rightarrow> string \<Rightarrow> string option" where
  "CheckForDir fs filePath =
     (case fs filePath of
        None \<Rightarrow> Some (''cannot stat '' @ filePath)
      | Some (Regular c) \<Rightarrow> Some (filePath @ '' is a file'')
      | Some Protected \<Rightarrow> Some (filePath @ '' is a file'')
      | Some _ \<Rightarrow> None)"

definition WriteSlsFile :: "env \<Rightarrow> string \<Rightarrow> string \<Rightarrow> files \<Rightarrow> unit res \<times> files \<times> event list" where
  "WriteSlsFile e buffer outFilePath fs =
     (let fullPath = outFilePath;
          stdOut = (fullPath = ''/dev/stdout'')
      in andThenW
           (if \<not> stdOut then
              (case mkdirAll e fullPath of
                 Some err \<Rightarrow> (Exit, fs, [Log FatalLevel (''error writing sls file: '' @ err)])
               | None \<Rightarrow> (Ok (), fs, []))
            else (Ok (), fs, []))
           (\<lambda>_ fs. andThenW
              (case fs fullPath of
                 Some Directory \<Rightarrow>
                   (Exit, fs, [Log FatalLevel (''error writing sls file: '' @ fullPath @ '': is a directory'')])
               | Some Protected \<Rightarrow>
                   (Exit, fs, [Log FatalLevel (''error writing sls file: '' @ fullPath @ '': permission denied'')])
               | Some (Special c) \<Rightarrow> (Ok (), fs, [Stdout buffer])
               | _ \<Rightarrow> (Ok (), fs(fullPath \<mapsto> Regular buffer), []))
              (\<lambda>_ fs.
                 if \<not> stdOut then
                   pure fs (andThen (shortFileName e outFilePath) (\<lambda>shortFile.
                     (Ok (), [Log InfoLevel (''wrote out to file: '' @ [CHR 0x27] @ shortFile @ [CHR 0x27])])))
                 else (Ok (), fs, []))))"

section \<open>Reading a document\<close>

text \<open>
  \<open>bufio.Scanner\<close> with its default split function yields the lines of the input without
  their line ends (a last line needs none, and one trailing carriage return is dropped);
  it stops with \<open>ErrTooLong\<close> at a line that does not fit its buffer of 64 KiB.
\<close>

fun lines_of :: "string \<Rightarrow> string list" where
  "lines_of [] = []"
| "lines_of (c # s) =
     (if c = newline then [] # lines_of s
      else (case lines_of s of [] \<Rightarrow> [[c]] | l # ls \<Rightarrow> (c # l) # ls))"

definition dropCR :: "string \<Rightarrow> string" where
  "dropCR l = (if l \<noteq> [] \<and> last l = CHR 0x0D then butlast l else l)"

definition MaxScanTokenSize :: nat where
  "MaxScanTokenSize = 64 * 1024"

fun ScanForIncludes_loop :: "string list \<Rightarrow> string option" where
  "ScanForIncludes_loop [] = None"
| "ScanForIncludes_loop (l # ls) =
     (if MaxScanTokenSize \<le> length l then Some ''bufio.Scanner: token too long''
      else if Contains (dropCR l) ''include:'' then Some ''contains include directives''
      else ScanForIncludes_loop ls)"

definition ScanForIncludes :: "string \<Rightarrow> string option" where
  "ScanForIncludes reader = ScanForIncludes_loop (lines_of reader)"

record sls =
  TopLevelElement :: string
  Values :: "(string \<times> node) list"

definition ReadBytes :: "env \<Rightarrow> sls \<Rightarrow> string \<Rightarrow> (string option \<times> sls) \<times> event list" where
  "ReadBytes e s buf =
     (let s1 = s\<lparr>Values := []\<rparr> in
      case ScanForIncludes buf of
        Some err \<Rightarrow> ((Some err, s1), [])
      | None \<Rightarrow>
          (case yaml_unmarshal e buf of
             (vals, err) \<Rightarrow> ((err, s1\<lparr>Values := vals\<rparr>), [UnmarshalCall buf])))"

definition ReadSlsFile :: "env \<Rightarrow> files \<Rightarrow> sls \<Rightarrow> string \<Rightarrow> (string option \<times> sls) \<times> event list" where
  "ReadSlsFile e fs s filePath =
     (case fs filePath of
        None \<Rightarrow> ((Some (''open '' @ filePath @ '': no such file or directory''), s), [])
      | Some Protected \<Rightarrow> ((Some (''open '' @ filePath @ '': permission denied''), s), [])
      | Some Directory \<Rightarrow> ((Some (''read '' @ filePath @ '': is a directory''), s), [])
      | Some (Regular buf) \<Rightarrow> ReadBytes e s buf
      | Some (Special buf) \<Rightarrow> ReadBytes e s buf)"

section \<open>Path addressing\<close>

text \<open>
  Modelled from the spec: \<open>Yaml.Get\<close> of the YAML helper library, which is not among the
  sources. The spec gives its interface as \<open>get(Node, path segments) -> Node|nil\<close>: the
  first segment is looked up among the top-level keys, each further segment in the mapping
  found so far, and a segment that leads nowhere gives nil. Segments are strings here, so
  a sequence on the way leads nowhere.
\<close>

fun dig :: "node \<Rightarrow> string list \<Rightarrow> node" where
  "dig v [] = v"
| "dig (YMap m) (k # ks) = (case map_of m (KStr k) of None \<Rightarrow> YNull | Some v \<Rightarrow> dig v ks)"
| "dig v (k # ks) = YNull"

definition Yaml_Get :: "(string \<times> node) list \<Rightarrow> string list \<Rightarrow> node" where
  "Yaml_Get vals route =
     (case route of
        [] \<Rightarrow> YNull
      | k # ks \<Rightarrow> (case map_of vals k of None \<Rightarrow> YNull | Some v \<Rightarrow> dig v ks))"

text \<open>\<open>strings.Split\<close> with a separator of one character.\<close>

fun Split :: "string \<Rightarrow> char \<Rightarrow> string list" where
  "Split [] sep = [[]]"
| "Split (c # s) sep =
     (if c = sep then [] # Split s sep
      else (case Split s sep of [] \<Rightarrow> [[c]] | p # ps \<Rightarrow> (c # p) # ps))"

definition GetValueFromPath :: "sls \<Rightarrow> string \<Rightarrow> node" where
  "GetValueFromPath s path = Yaml_Get (Values s) (Split path (CHR '':''))"

section \<open>Performing an action on a document\<close>

definition marker :: string where
  "marker = ''#!yaml|gpg'' @ [newline, newline]"

definition FormatBuffer :: "env \<Rightarrow> sls \<Rightarrow> string \<Rightarrow> string res \<times> event list" where
  "FormatBuffer e s action =
     andThen (Ok (), if length (Values s) = 0 then [Log ErrorLevel ''no values to format''] else [])
       (\<lambda>_. case yaml_marshal e (Values s) of
               Inl err \<Rightarrow> (Exit, [Log FatalLevel err])
             | Inr out \<Rightarrow> (Ok ((if action \<noteq> validate then marker else []) @ out), []))"

text \<open>
  The loop of \<open>PerformAction\<close> over the keys of \<open>s.Yaml.Values\<close>; \<open>stuff\<close> is the map it
  fills.
\<close>

fun PerformAction_loop :: "env \<Rightarrow> sls \<Rightarrow> string \<Rightarrow> string list \<Rightarrow> (string \<times> node) list
                            \<Rightarrow> (string \<times> node) list res \<times> event list" where
  "PerformAction_loop e s action [] stuff = (Ok stuff, [])"
| "PerformAction_loop e s action (key # keys) stuff =
     (if TopLevelElement s \<noteq> '''' then
        (let vals = GetValueFromPath s key in
         if TopLevelElement s = key then
           andThen (ProcessValues e vals action)
             (\<lambda>v. PerformAction_loop e s action keys (AList.update key v stuff))
         else PerformAction_loop e s action keys (AList.update key vals stuff))
      else
        (let vals = GetValueFromPath s key in
         andThen (ProcessValues e vals action)
           (\<lambda>v. PerformAction_loop e s action keys (AList.update key v stuff))))"

definition PerformAction :: "env \<Rightarrow> sls \<Rightarrow> string \<Rightarrow> (string \<times> sls) res \<times> event list" where
  "PerformAction e s action =
     (if validAction action then
        andThen (PerformAction_loop e s action (map fst (Values s)) [])
          (\<lambda>stuff. let s1 = s\<lparr>Values := stuff\<rparr> in
             andThen (FormatBuffer e s1 action) (\<lambda>buffer. (Ok (buffer, s1), [])))
      else andThen (FormatBuffer e s action) (\<lambda>buffer. (Ok (buffer, s), [])))"

definition FileAction :: "env \<Rightarrow> files \<Rightarrow> sls \<Rightarrow> string \<Rightarrow> string
                            \<Rightarrow> ((string \<times> string option) \<times> sls) res \<times> event list" where
  "FileAction e fs s filePath action =
     (case CheckForFile fs filePath of
        Some err \<Rightarrow> (Ok (('''', Some err), s), [])
      | None \<Rightarrow>
          (case ReadSlsFile e fs s filePath of
             ((Some err, s1), t) \<Rightarrow> (Ok (('''', Some err), s1), t)
           | ((None, s1), t) \<Rightarrow>
               andThen (Ok (), t) (\<lambda>_.
                 andThen (PerformAction e s1 action) (\<lambda>(buffer, s2). (Ok ((buffer, None), s2), [])))))"

definition CipherTextYamlBuffer :: "env \<Rightarrow> files \<Rightarrow> sls \<Rightarrow> string
                                      \<Rightarrow> ((string \<times> string option) \<times> sls) res \<times> event list" where
  "CipherTextYamlBuffer e fs s filePath = FileAction e fs s filePath encrypt"

definition PlainTextYamlBuffer :: "env \<Rightarrow> files \<Rightarrow> sls \<Rightarrow> string
                                     \<Rightarrow> ((string \<times> string option) \<times> sls) res \<times> event list" where
  "PlainTextYamlBuffer e fs s filePath = FileAction e fs s filePath decrypt"

definition KeysForYamlBuffer :: "env \<Rightarrow> files \<Rightarrow> sls \<Rightarrow> string
                                   \<Rightarrow> ((string \<times> string option) \<times> sls) res \<times> event list" where
  "KeysForYamlBuffer e fs s filePath = FileAction e fs s filePath validate"

section \<open>Sweeping a directory and rotating a file\<close>

definition FindSlsFiles :: "env \<Rightarrow> files \<Rightarrow> string \<Rightarrow> (string list \<times> nat) res \<times> event list" where
  "FindSlsFiles e fs searchDir =
     (case CheckForDir fs searchDir of
        Some err \<Rightarrow> (Ok ([], 0), [Log ErrorLevel err])
      | None \<Rightarrow>
          (case walk e searchDir of
             None \<Rightarrow> (Panic, [])
           | Some entries \<Rightarrow>
               (let fileList = map fst (filter (\<lambda>(path, name, isDir). \<not> isDir \<and> Contains name ''.sls'') entries)
                in (Ok (fileList, length fileList), []))))"

text \<open>The name \<open>os.Stat\<close> reports for a path: its last element, trailing slashes removed.\<close>

definition basename :: "string \<Rightarrow> string" where
  "basename name =
     (let stripped = rev (dropWhile (\<lambda>c. c = CHR ''/'') (rev name)) in
      if stripped = [] \<and> name \<noteq> [] then ''/''
      else rev (takeWhile (\<lambda>c. c \<noteq> CHR ''/'') (rev stripped)))"

text \<open>
  The body of the loop of \<open>ProcessDir\<close> writes the buffer first and looks at the error of
  the file action afterwards.
\<close>

fun ProcessDir_loop :: "env \<Rightarrow> string \<Rightarrow> string list \<Rightarrow> sls \<Rightarrow> files \<Rightarrow> sls res \<times> files \<times> event list" where
  "ProcessDir_loop e action [] s fs = (Ok s, fs, [])"
| "ProcessDir_loop e action (file # rest) s fs =
     andThenW
       (pure fs (andThen (shortFileName e file)
          (\<lambda>shortFile. (Ok (), [Log InfoLevel (''processing '' @ shortFile)]))))
       (\<lambda>_ fs. andThenW
          (if action = encrypt then
             andThenW (pure fs (CipherTextYamlBuffer e fs s file)) (\<lambda>((buffer, err), s1) fs.
               andThenW (WriteSlsFile e buffer file fs) (\<lambda>_ fs. (Ok (err, s1), fs, [])))
           else if action = decrypt then
             andThenW (pure fs (PlainTextYamlBuffer e fs s file)) (\<lambda>((buffer, err), s1) fs.
               andThenW (WriteSlsFile e buffer file fs) (\<lambda>_ fs. (Ok (err, s1), fs, [])))
           else if action = validate then
             andThenW (pure fs (KeysForYamlBuffer e fs s file)) (\<lambda>((buffer, err), s1) fs.
               (Ok (err, s1), fs, [Stdout (buffer @ [newline])]))
           else (Exit, fs, [Log FatalLevel (''unknown action: '' @ action)]))
          (\<lambda>(err, s1) fs.
             case err of
               Some m \<Rightarrow>
                 andThenW (Ok (), fs, [Log WarnLevel m]) (\<lambda>_ fs. ProcessDir_loop e action rest s1 fs)
             | None \<Rightarrow> ProcessDir_loop e action rest s1 fs))"

definition ProcessDir :: "env \<Rightarrow> sls \<Rightarrow> string \<Rightarrow> string \<Rightarrow> files \<Rightarrow> sls res \<times> files \<times> event list" where
  "ProcessDir e s recurseDir action fs =
     (case fs recurseDir of
        None \<Rightarrow> (Exit, fs, [Log FatalLevel (''cannot stat '' @ recurseDir)])
      | Some info \<Rightarrow>
          if info = Directory \<and> basename recurseDir \<noteq> ''..'' then
            andThenW (pure fs (FindSlsFiles e fs recurseDir)) (\<lambda>(slsFiles, count) fs.
              if count = 0 then (Exit, fs, [Log FatalLevel (recurseDir @ '' has no sls files'')])
              else ProcessDir_loop e action slsFiles s fs)
          else (Exit, fs, [Log FatalLevel (recurseDir @ '' is not a directory'')]))"

text \<open>
  \<open>RotateFile\<close> logs the error of the decrypting pass and goes on: it encrypts whatever
  \<open>s.Yaml.Values\<close> holds by then and writes the result over the file. The send on
  \<open>limChan\<close> that ends it is not part of the model.
\<close>

definition RotateFile :: "env \<Rightarrow> sls \<Rightarrow> string \<Rightarrow> files \<Rightarrow> sls res \<times> files \<times> event list" where
  "RotateFile e s file fs =
     andThenW
       (pure fs (andThen (shortFileName e file)
          (\<lambda>shortFile. (Ok (), [Log InfoLevel (''processing '' @ shortFile)]))))
       (\<lambda>_ fs. andThenW (pure fs (PlainTextYamlBuffer e fs s file)) (\<lambda>((_, err), s1) fs.
          andThenW (Ok (), fs, (case err of Some m \<Rightarrow> [Log ErrorLevel m] | None \<Rightarrow> []))
            (\<lambda>_ fs. andThenW (pure fs (PerformAction e s1 encrypt)) (\<lambda>(buffer, s2) fs.
               andThenW (WriteSlsFile e buffer file fs) (\<lambda>_ fs. (Ok s2, fs, []))))))"

section \<open>Shapes\<close>

text \<open>
  The shape of a value: what is left of it when the content of its leaves is forgotten.
  \<open>strings_only\<close> holds of the values whose leaves are all strings and whose mappings
  have no key twice, and \<open>libraries_succeed\<close> of an environment in which encryption and
  key lookup never fail and decoding never yields a nil block.
\<close>

datatype shape = Leaf | SeqShape "shape list" | MapShape "(key \<times> shape) list"

fun shape_of :: "node \<Rightarrow> shape" where
  "shape_of (YSeq xs) = SeqShape (map shape_of xs)"
| "shape_of (YMap m) = MapShape (map (\<lambda>(k, v). (k, shape_of v)) m)"
| "shape_of v = Leaf"

fun strings_only :: "node \<Rightarrow> bool" where
  "strings_only (YStr s) = True"
| "strings_only (YSeq xs) = list_all strings_only xs"
| "strings_only (YMap m) = (distinct (map fst m) \<and> list_all (\<lambda>p. strings_only (snd p)) m)"
| "strings_only v = False"

definition libraries_succeed :: "env \<Rightarrow> bool" where
  "libraries_succeed e =
     ((\<forall>p. \<exists>c. pgp_encrypt e p = Inr c) \<and> (\<forall>c. pgp_decrypt e c \<noteq> DecodeNil)
      \<and> (\<forall>c. \<exists>k. pgp_keyinfo e c = Inr k))"

section \<open>Sample data\<close>

text \<open>
  A stand-in for the libraries, used where a property is evaluated on a concrete input:
  encryption puts the armour header in front of the text, decryption takes it off again
  and fails on anything that does not start with it, the codec knows one document and
  prints flat mappings.
\<close>

definition sample_text :: string where
  "sample_text = ''pw: hunter2'' @ [newline]"

definition toy_marshal :: "(string \<times> node) list \<Rightarrow> string" where
  "toy_marshal vals =
     (if vals = [] then ''{}'' @ [newline]
      else concat (map (\<lambda>(k, v). k @ '': '' @ (case v of YStr x \<Rightarrow> x | _ \<Rightarrow> ''null'') @ [newline]) vals))"

definition toy_env :: env where
  "toy_env =
     \<lparr>pgp_encrypt = (\<lambda>p. Inr (pgpHeader @ p)),
      pgp_decrypt = (\<lambda>c. if prefix pgpHeader c then Plain (drop (length pgpHeader) c)
                          else ReadMessageFailed ''EOF''),
      pgp_keyinfo = (\<lambda>c. Inr ''1A2B3C4D: Salt Master''),
      SecretKeyRing = ''/keys/secring.gpg'',
      yaml_unmarshal = (\<lambda>buf. if buf = sample_text then ([(''pw'', YStr ''hunter2'')], None)
                               else ([], Some ''yaml: cannot parse'')),
      yaml_marshal = (\<lambda>vals. Inr (toy_marshal vals)),
      getwd = Inr ''/srv'',
      mkdirAll = (\<lambda>p. None),
      walk = (\<lambda>d. Some [])\<rparr>"

definition include_text :: string where
  "include_text = ''include: base'' @ [newline] @ ''pw: hunter2'' @ [newline]"

definition sample_fs :: files where
  "sample_fs = (\<lambda>p. None)(''/srv/pillar'' \<mapsto> Directory,
                            ''/srv/pillar/a.sls'' \<mapsto> Regular include_text,
                            ''/srv/pillar/b.sls'' \<mapsto> Regular sample_text)"

definition sweep_env :: env where
  "sweep_env = toy_env\<lparr>walk := (\<lambda>d. Some [(''/srv/pillar'', ''pillar'', True),
                                              (''/srv/pillar/a.sls'', ''a.sls'', False),
                                              (''/srv/pillar/b.sls'', ''b.sls'', False)])\<rparr>"

definition new_sls :: sls where
  "new_sls = \<lparr>TopLevelElement = '''', Values = []\<rparr>"

definition pw_doc :: sls where
  "pw_doc = \<lparr>TopLevelElement = '''', Values = [(''pw'', YStr ''hunter2'')]\<rparr>"

definition colon_doc :: sls where
  "colon_doc = \<lparr>TopLevelElement = ''secure_vars'',
                Values = [(''a:b'', YStr ''keep''), (''secure_vars'', YMap [])]\<rparr>"

definition sample_mention :: string where
  "sample_mention = ''see -----BEGIN PGP MESSAGE----- below''"

section \<open>Properties of the leaf operations and of the tree walk\<close>

lemmas action_defs = encrypt_def decrypt_def validate_def

lemma isEncrypted_iff: "isEncrypted s \<longleftrightarrow> (\<exists>before after. s = before @ pgpHeader @ after)"
  by (simp add: isEncrypted_def Contains_def sublist_def)

lemma andThen_first_event:
  assumes "\<exists>t. snd m = x # t"
  shows "\<exists>t. snd (andThen m f) = x # t"
  using assms by (cases m; cases "fst m") (auto simp: andThen_def split: prod.splits)

lemma decryptVal_first_event:
  assumes "isEncrypted str"
  shows "\<exists>t. snd (decryptVal e str) = DecryptCall str # t"
  using assms
  by (cases "pgp_decrypt e str") (auto simp: decryptVal_def DecryptSecret_def andThen_def)

lemma snd_andThen_quiet: "snd (andThen m (\<lambda>a. (Ok (h a), []))) = snd m"
  by (cases m; cases "fst m") (auto simp: andThen_def)

lemma andThen_quiet_twice:
  "andThen (andThen m (\<lambda>a. (Ok (h a), []))) (\<lambda>b. (Ok (g b), [])) = andThen m (\<lambda>a. (Ok (g (h a)), []))"
  by (cases m; cases "fst m") (auto simp: andThen_def)

lemma andThen_return: "andThen (Ok a, []) f = f a"
  by (simp add: andThen_def split: prod.splits)

lemma EncryptCall_in_EncryptSecret:
  "EncryptCall x \<in> set (snd (EncryptSecret e p)) \<longleftrightarrow> x = p"
  by (cases "pgp_encrypt e p") (auto simp: EncryptSecret_def)

lemma DecryptCall_in_decryptVal:
  "DecryptCall x \<in> set (snd (decryptVal e str)) \<longleftrightarrow> x = str \<and> isEncrypted str"
  by (cases "pgp_decrypt e str") (auto simp: decryptVal_def DecryptSecret_def andThen_def)

lemma decryptVal_plain: "\<not> isEncrypted str \<Longrightarrow> decryptVal e str = (Ok str, [])"
  by (simp add: decryptVal_def)

lemma isEncrypted_sample_mention: "isEncrypted sample_mention"
  by (simp add: isEncrypted_def Contains_def sample_mention_def pgpHeader_def sublist_code(3))

lemma not_isEncrypted_hunter2: "\<not> isEncrypted ''hunter2''"
  by (simp add: isEncrypted_def Contains_def pgpHeader_def sublist_code(3))

text \<open>
  C10. The walk treats a string as encrypted exactly when the armour header occurs
  somewhere in it, in both directions and in all three positions (at the root, as a
  mapping value, as a sequence element).
  Under the encrypt action a string in which the header occurs is never handed to the
  encryption library: it comes back as it is at the root and as a mapping value, and as
  nil in a sequence, with no event. A string in which it does not occur is handed to
  \<open>EncryptSecret\<close>, and the result is what that returns.
  Under the decrypt action a string in which the header occurs is handed to the
  decryption library, and that call is the first event. A string in which it does not
  occur is returned as it is, with no event.
  The calls of the two libraries are exactly these: an \<open>EncryptCall\<close> is among the
  events only for the string itself and only if the header does not occur in it, a
  \<open>DecryptCall\<close> only for the string itself and only if it does.
\<close>

theorem isEncrypted_is_containment:
  "(isEncrypted str \<longleftrightarrow> header_occurs_in str)
   \<and> (header_occurs_in str \<longleftrightarrow> (\<exists>before after. str = before @ pgpHeader @ after))
   \<and> ProcessValues e (YStr str) encrypt
       = (if header_occurs_in str then (Ok (YStr str), [])
          else andThen (EncryptSecret e str) (\<lambda>c. (Ok (YStr c), [])))
   \<and> doMap e [(k, YStr str)] encrypt
       = (if header_occurs_in str then (Ok (YMap [(k, YStr str)]), [])
          else andThen (EncryptSecret e str) (\<lambda>c. (Ok (YMap [(k, YStr c)]), [])))
   \<and> doSlice e [YStr str] encrypt
       = (if header_occurs_in str then (Ok (YSeq [YNull]), [])
          else andThen (EncryptSecret e str) (\<lambda>c. (Ok (YSeq [YStr c]), [])))
   \<and> (EncryptCall x \<in> set (snd (ProcessValues e (YStr str) encrypt))
        \<longleftrightarrow> x = str \<and> \<not> header_occurs_in str)
   \<and> (EncryptCall x \<in> set (snd (doMap e [(k, YStr str)] encrypt))
        \<longleftrightarrow> x = str \<and> \<not> header_occurs_in str)
   \<and> (EncryptCall x \<in> set (snd (doSlice e [YStr str] encrypt))
        \<longleftrightarrow> x = str \<and> \<not> header_occurs_in str)
   \<and> (DecryptCall x \<in> set (snd (ProcessValues e (YStr str) decrypt))
        \<longleftrightarrow> x = str \<and> header_occurs_in str)
   \<and> (DecryptCall x \<in> set (snd (doMap e [(k, YStr str)] decrypt))
        \<longleftrightarrow> x = str \<and> header_occurs_in str)
   \<and> (DecryptCall x \<in> set (snd (doSlice e [YStr str] decrypt))
        \<longleftrightarrow> x = str \<and> header_occurs_in str)
   \<and> (if header_occurs_in str
       then hd (snd (ProcessValues e (YStr str) decrypt)) = DecryptCall str
       else ProcessValues e (YStr str) decrypt = (Ok (YStr str), []))
   \<and> (if header_occurs_in str
       then hd (snd (doMap e [(k, YStr str)] decrypt)) = DecryptCall str
       else doMap e [(k, YStr str)] decrypt = (Ok (YMap [(k, YStr str)]), []))
   \<and> (if header_occurs_in str
       then hd (snd (doSlice e [YStr str] decrypt)) = DecryptCall str
       else doSlice e [YStr str] decrypt = (Ok (YSeq [YStr str]), []))"
proof -
  have iff: "isEncrypted str \<longleftrightarrow> header_occurs_in str"
    by (simp add: header_occurs_in_def isEncrypted_iff)
  have ne: "encrypt \<noteq> decrypt" by (simp add: action_defs)
  have pe: "ProcessValues e (YStr str) encrypt
       = (if header_occurs_in str then (Ok (YStr str), [])
          else andThen (EncryptSecret e str) (\<lambda>c. (Ok (YStr c), [])))"
    using ne by (simp add: ProcessValues_def iff)
  have me: "doMap e [(k, YStr str)] encrypt
       = (if header_occurs_in str then (Ok (YMap [(k, YStr str)]), [])
          else andThen (EncryptSecret e str) (\<lambda>c. (Ok (YMap [(k, YStr c)]), [])))"
    using ne by (simp add: doMap_def iff andThen_quiet_twice) (simp add: andThen_def)
  have se: "doSlice e [YStr str] encrypt
       = (if header_occurs_in str then (Ok (YSeq [YNull]), [])
          else andThen (EncryptSecret e str) (\<lambda>c. (Ok (YSeq [YStr c]), [])))"
    using ne by (simp add: doSlice_def iff andThen_quiet_twice) (simp add: andThen_def)
  have pd: "ProcessValues e (YStr str) decrypt = andThen (decryptVal e str) (\<lambda>p. (Ok (YStr p), []))"
    by (simp add: ProcessValues_def)
  have md: "doMap e [(k, YStr str)] decrypt = andThen (decryptVal e str) (\<lambda>p. (Ok (YMap [(k, YStr p)]), []))"
    by (simp add: doMap_def andThen_quiet_twice)
  have sd: "doSlice e [YStr str] decrypt = andThen (decryptVal e str) (\<lambda>p. (Ok (YSeq [YStr p]), []))"
    by (simp add: doSlice_def andThen_quiet_twice)
  have first: "hd (snd (decryptVal e str)) = DecryptCall str" if "header_occurs_in str"
    using decryptVal_first_event[of str e] that iff by auto
  have ee: "EncryptCall x \<in> set (snd (if header_occurs_in str then (Ok (r :: node), [])
                 else andThen (EncryptSecret e str) (\<lambda>c. (Ok (h c), []))))
              \<longleftrightarrow> x = str \<and> \<not> header_occurs_in str" for r h
    by (simp add: snd_andThen_quiet EncryptCall_in_EncryptSecret)
  have dd: "DecryptCall x \<in> set (snd (andThen (decryptVal e str) (\<lambda>p. (Ok (h p :: node), []))))
              \<longleftrightarrow> x = str \<and> header_occurs_in str" for h
    by (simp add: snd_andThen_quiet DecryptCall_in_decryptVal iff)
  have hh: "(if header_occurs_in str
             then hd (snd (andThen (decryptVal e str) (\<lambda>p. (Ok (h p :: node), [])))) = DecryptCall str
             else andThen (decryptVal e str) (\<lambda>p. (Ok (h p), [])) = (Ok (h str), []))" for h
    using first iff by (simp add: snd_andThen_quiet decryptVal_plain andThen_return)
  have unfold: "header_occurs_in str \<longleftrightarrow> (\<exists>before after. str = before @ pgpHeader @ after)"
    by (simp add: header_occurs_in_def)
  note e1 = ee[of "YStr str" YStr, folded pe]
  note e2 = ee[of "YMap [(k, YStr str)]" "\<lambda>c. YMap [(k, YStr c)]", folded me]
  note e3 = ee[of "YSeq [YNull]" "\<lambda>c. YSeq [YStr c]", folded se]
  note d1 = dd[of YStr, folded pd]
  note d2 = dd[of "\<lambda>p. YMap [(k, YStr p)]", folded md]
  note d3 = dd[of "\<lambda>p. YSeq [YStr p]", folded sd]
  note h1 = hh[of YStr, folded pd]
  note h2 = hh[of "\<lambda>p. YMap [(k, YStr p)]", folded md]
  note h3 = hh[of "\<lambda>p. YSeq [YStr p]", folded sd]
  show ?thesis
    by (intro conjI iff unfold pe me se e1 e2 e3 d1 d2 d3 h1 h2 h3)
qed

theorem isEncrypted_is_containment_witness:
  "sample_mention = ''see '' @ pgpHeader @ '' below''
    \<and> header_occurs_in sample_mention
    \<and> \<not> header_occurs_in ''hunter2''
    \<and> ProcessValues toy_env (YStr sample_mention) encrypt = (Ok (YStr sample_mention), [])
    \<and> doMap toy_env [(KStr ''note'', YStr sample_mention)] encrypt
        = (Ok (YMap [(KStr ''note'', YStr sample_mention)]), [])
    \<and> doSlice toy_env [YStr sample_mention] encrypt = (Ok (YSeq [YNull]), [])
    \<and> ProcessValues toy_env (YStr ''hunter2'') encrypt
        = (Ok (YStr (pgpHeader @ ''hunter2'')), [EncryptCall ''hunter2''])
    \<and> doMap toy_env [(KStr ''pw'', YStr ''hunter2'')] encrypt
        = (Ok (YMap [(KStr ''pw'', YStr (pgpHeader @ ''hunter2''))]), [EncryptCall ''hunter2''])
    \<and> doSlice toy_env [YStr ''hunter2''] encrypt
        = (Ok (YSeq [YStr (pgpHeader @ ''hunter2'')]), [EncryptCall ''hunter2''])
    \<and> hd (snd (ProcessValues toy_env (YStr sample_mention) decrypt)) = DecryptCall sample_mention
    \<and> hd (snd (doMap toy_env [(KStr ''note'', YStr sample_mention)] decrypt)) = DecryptCall sample_mention
    \<and> hd (snd (doSlice toy_env [YStr sample_mention] decrypt)) = DecryptCall sample_mention
    \<and> ProcessValues toy_env (YStr ''hunter2'') decrypt = (Ok (YStr ''hunter2''), [])
    \<and> doMap toy_env [(KStr ''pw'', YStr ''hunter2'')] decrypt
        = (Ok (YMap [(KStr ''pw'', YStr ''hunter2'')]), [])
    \<and> doSlice toy_env [YStr ''hunter2''] decrypt = (Ok (YSeq [YStr ''hunter2'']), [])"
proof -
  note M = isEncrypted_is_containment[of sample_mention toy_env "KStr ''note''" sample_mention]
  note P = isEncrypted_is_containment[of "''hunter2''" toy_env "KStr ''pw''" "''hunter2''"]
  have h: "sample_mention = ''see '' @ pgpHeader @ '' below''"
    by (simp add: sample_mention_def pgpHeader_def)
  from M isEncrypted_sample_mention have hm: "header_occurs_in sample_mention" by blast
  from P not_isEncrypted_hunter2 have hp: "\<not> header_occurs_in ''hunter2''" by blast
  have enc: "andThen (EncryptSecret toy_env ''hunter2'') (\<lambda>c. (Ok (f c), []))
               = (Ok (f (pgpHeader @ ''hunter2'')), [EncryptCall ''hunter2''])" for f :: "string \<Rightarrow> node"
    by (simp add: EncryptSecret_def toy_env_def andThen_def)
  from M have m1: "ProcessValues toy_env (YStr sample_mention) encrypt
       = (if header_occurs_in sample_mention then (Ok (YStr sample_mention), [])
          else andThen (EncryptSecret toy_env sample_mention) (\<lambda>c. (Ok (YStr c), [])))"
    by blast
  from M have m2: "doMap toy_env [(KStr ''note'', YStr sample_mention)] encrypt
       = (if header_occurs_in sample_mention then (Ok (YMap [(KStr ''note'', YStr sample_mention)]), [])
          else andThen (EncryptSecret toy_env sample_mention) (\<lambda>c. (Ok (YMap [(KStr ''note'', YStr c)]), [])))"
    by blast
  from M have m3: "doSlice toy_env [YStr sample_mention] encrypt
       = (if header_occurs_in sample_mention then (Ok (YSeq [YNull]), [])
          else andThen (EncryptSecret toy_env sample_mention) (\<lambda>c. (Ok (YSeq [YStr c]), [])))"
    by blast
  from P have p1: "ProcessValues toy_env (YStr ''hunter2'') encrypt
       = (if header_occurs_in ''hunter2'' then (Ok (YStr ''hunter2''), [])
          else andThen (EncryptSecret toy_env ''hunter2'') (\<lambda>c. (Ok (YStr c), [])))"
    by blast
  from P have p2: "doMap toy_env [(KStr ''pw'', YStr ''hunter2'')] encrypt
       = (if header_occurs_in ''hunter2'' then (Ok (YMap [(KStr ''pw'', YStr ''hunter2'')]), [])
          else andThen (EncryptSecret toy_env ''hunter2'') (\<lambda>c. (Ok (YMap [(KStr ''pw'', YStr c)]), [])))"
    by blast
  from P have p3: "doSlice toy_env [YStr ''hunter2''] encrypt
       = (if header_occurs_in ''hunter2'' then (Ok (YSeq [YNull]), [])
          else andThen (EncryptSecret toy_env ''hunter2'') (\<lambda>c. (Ok (YSeq [YStr c]), [])))"
    by blast
  from M have m4: "if header_occurs_in sample_mention
       then hd (snd (ProcessValues toy_env (YStr sample_mention) decrypt)) = DecryptCall sample_mention
       else ProcessValues toy_env (YStr sample_mention) decrypt = (Ok (YStr sample_mention), [])"
    by blast
  from M have m5: "if header_occurs_in sample_mention
       then hd (snd (doMap toy_env [(KStr ''note'', YStr sample_mention)] decrypt)) = DecryptCall sample_mention
       else doMap toy_env [(KStr ''note'', YStr sample_mention)] decrypt
              = (Ok (YMap [(KStr ''note'', YStr sample_mention)]), [])"
    by blast
  from M have m6: "if header_occurs_in sample_mention
       then hd (snd (doSlice toy_env [YStr sample_mention] decrypt)) = DecryptCall sample_mention
       else doSlice toy_env [YStr sample_mention] decrypt = (Ok (YSeq [YStr sample_mention]), [])"
    by blast
  from P have p4: "if header_occurs_in ''hunter2''
       then hd (snd (ProcessValues toy_env (YStr ''hunter2'') decrypt)) = DecryptCall ''hunter2''
       else ProcessValues toy_env (YStr ''hunter2'') decrypt = (Ok (YStr ''hunter2''), [])"
    by blast
  from P have p5: "if header_occurs_in ''hunter2''
       then hd (snd (doMap toy_env [(KStr ''pw'', YStr ''hunter2'')] decrypt)) = DecryptCall ''hunter2''
       else doMap toy_env [(KStr ''pw'', YStr ''hunter2'')] decrypt
              = (Ok (YMap [(KStr ''pw'', YStr ''hunter2'')]), [])"
    by blast
  from P have p6: "if header_occurs_in ''hunter2''
       then hd (snd (doSlice toy_env [YStr ''hunter2''] decrypt)) = DecryptCall ''hunter2''
       else doSlice toy_env [YStr ''hunter2''] decrypt = (Ok (YSeq [YStr ''hunter2'']), [])"
    by blast
  note em = m1[unfolded if_P[OF hm]] m2[unfolded if_P[OF hm]] m3[unfolded if_P[OF hm]]
  note ep = p1[unfolded if_not_P[OF hp] enc] p2[unfolded if_not_P[OF hp] enc]
            p3[unfolded if_not_P[OF hp] enc]
  note dm = m4[unfolded if_P[OF hm]] m5[unfolded if_P[OF hm]] m6[unfolded if_P[OF hm]]
  note dp = p4[unfolded if_not_P[OF hp]] p5[unfolded if_not_P[OF hp]] p6[unfolded if_not_P[OF hp]]
  show ?thesis
    by (intro conjI h hm hp em ep dm dp)
qed

text \<open>
  C5, as the code has it. When \<open>DecryptSecret\<close> returns an error for a string that
  contains the header, \<open>decryptVal\<close> writes the error to the log at error level and
  returns the string it was given as its value; its caller gets no error.
\<close>

theorem decryptVal_failure_logs_and_keeps_text:
  assumes "isEncrypted strVal" and "DecryptSecret e strVal = (Ok (plainText, Some err), t)"
  shows "decryptVal e strVal = (Ok strVal, t @ [Log ErrorLevel (''error decrypting value: '' @ err)])"
  using assms
  by (cases "pgp_decrypt e strVal") (auto simp: decryptVal_def DecryptSecret_def andThen_def)

lemma DecryptSecret_sample_mention:
  "DecryptSecret toy_env sample_mention
     = (Ok (sample_mention, Some ''unable to read PGP message: EOF''), [DecryptCall sample_mention])"
  by (simp add: DecryptSecret_def toy_env_def sample_mention_def pgpHeader_def)

theorem decryptVal_failure_logs_and_keeps_text_witness:
  "isEncrypted sample_mention
    \<and> DecryptSecret toy_env sample_mention
        = (Ok (sample_mention, Some ''unable to read PGP message: EOF''), [DecryptCall sample_mention])
    \<and> decryptVal toy_env sample_mention
        = (Ok sample_mention,
           [DecryptCall sample_mention,
            Log ErrorLevel ''error decrypting value: unable to read PGP message: EOF''])"
  using decryptVal_failure_logs_and_keeps_text[OF isEncrypted_sample_mention DecryptSecret_sample_mention]
        isEncrypted_sample_mention DecryptSecret_sample_mention
  by simp

text \<open>
  C5, as the claim states it, fails: here the decryption library reports an error for a
  string that contains the header, and the leaf operation returns normally with the
  original string as its value.
\<close>

theorem decryptVal_returns_no_error_counterexample:
  "isEncrypted sample_mention
    \<and> fst (DecryptSecret toy_env sample_mention)
        = Ok (sample_mention, Some ''unable to read PGP message: EOF'')
    \<and> fst (decryptVal toy_env sample_mention) = Ok sample_mention"
  by (simp add: isEncrypted_sample_mention DecryptSecret_sample_mention decryptVal_def andThen_def)

lemma isEncrypted_header_prefix: "isEncrypted (pgpHeader @ body)"
  using isEncrypted_iff[of "pgpHeader @ body"] by (metis append_Nil)

text \<open>
  C2 fails for a sequence element: under the encrypt action an element that already
  starts with the armour header is not kept but replaced by nil, because \<open>doSlice\<close>
  appends its variable \<open>thing\<close>, which the encrypt case leaves unset for such a string.
  At the root and as a mapping value the string is kept.
\<close>

theorem encrypt_replaces_encrypted_sequence_element_by_nil:
  "ProcessValues e (YSeq [YStr (pgpHeader @ body)]) encrypt = (Ok (YSeq [YNull]), [])"
  using isEncrypted_header_prefix[of body]
  by (simp add: ProcessValues_def doSlice_def andThen_def action_defs)

lemma encrypt_keeps_encrypted_root:
  "ProcessValues e (YStr (pgpHeader @ body)) encrypt = (Ok (YStr (pgpHeader @ body)), [])"
  using isEncrypted_header_prefix[of body]
  by (simp add: ProcessValues_def action_defs)

lemma encrypt_keeps_encrypted_mapping_value:
  "ProcessValues e (YMap [(k, YStr (pgpHeader @ body))]) encrypt
     = (Ok (YMap [(k, YStr (pgpHeader @ body))]), [])"
  using isEncrypted_header_prefix[of body]
  by (simp add: ProcessValues_def doMap_def andThen_def action_defs)

text \<open>
  C3 fails: the walk stores nothing for a value that is neither a string, a sequence nor
  a mapping, so a mapping loses the keys of its numbers and booleans and a sequence
  gets shorter; and a mapping loses every key that the loop has not reached when it
  meets a nil value.
\<close>

theorem walk_drops_values_that_are_not_strings:
  "ProcessValues e (YMap [(KStr ''port'', YInt 8080)]) action = (Ok (YMap []), [])
   \<and> ProcessValues e (YSeq [YInt 1, YBool True]) action = (Ok (YSeq []), [])
   \<and> ProcessValues e (YMap [(KStr ''a'', YNull), (KStr ''b'', YSeq [])]) action = (Ok (YMap []), [])"
  by (simp add: ProcessValues_def doSlice_def doMap_def andThen_def)

text \<open>
  What does hold of the walk: on a value whose leaves are all strings it keeps the shape,
  and it returns whenever the libraries do.
\<close>

lemma andThen_Ok:
  "andThen m f = (Ok b, t) \<longleftrightarrow> (\<exists>a t1 t2. m = (Ok a, t1) \<and> f a = (Ok b, t2) \<and> t = t1 @ t2)"
  by (cases m; cases "fst m") (auto simp: andThen_def split: prod.splits)

lemma update_fresh: "k \<notin> fst ` set al \<Longrightarrow> AList.update k v al = al @ [(k, v)]"
  by (induction al) auto


lemma slice_leaf_shape:
  assumes "(if action = decrypt then andThen (decryptVal e strVal) (\<lambda>p. (Ok (YStr p), []))
            else if action = encrypt then
              (if \<not> isEncrypted strVal then andThen (EncryptSecret e strVal) (\<lambda>c. (Ok (YStr c), []))
               else (Ok YNull, []))
            else if action = validate then andThen (keyInfo e strVal) (\<lambda>k. (Ok (YStr k), []))
            else (Ok YNull, [])) = (Ok a, t)"
  shows "shape_of a = Leaf"
  using assms by (auto simp: andThen_Ok split: if_splits)

lemma map_leaf_shape:
  assumes "(if action = decrypt then andThen (decryptVal e strVal) (\<lambda>p. (Ok (YStr p), []))
            else if action = encrypt then
              (if \<not> isEncrypted strVal then andThen (EncryptSecret e strVal) (\<lambda>c. (Ok (YStr c), []))
               else (Ok (YStr strVal), []))
            else if action = validate then andThen (keyInfo e strVal) (\<lambda>k. (Ok (YStr k), []))
            else (Ok (YStr strVal), [])) = (Ok a, t)"
  shows "shape_of a = Leaf"
  using assms by (auto simp: andThen_Ok split: if_splits)

lemma walk_keeps_shape:
  "list_all strings_only items \<Longrightarrow> doSlice_loop e items action things = (Ok out, t)
     \<Longrightarrow> map shape_of out = map shape_of things @ map shape_of items"
  "list_all (\<lambda>p. strings_only (snd p)) m \<Longrightarrow> distinct (map fst m)
     \<Longrightarrow> fst ` set m \<inter> fst ` set ret = {}
     \<Longrightarrow> doMap_loop e m action ret = (Ok mout, t')
     \<Longrightarrow> map (\<lambda>(k, v). (k, shape_of v)) mout
           = map (\<lambda>(k, v). (k, shape_of v)) ret @ map (\<lambda>(k, v). (k, shape_of v)) m"
proof (induction e items action things and e m action ret arbitrary: out t and mout t'
       rule: doSlice_loop_doMap_loop.induct)
  case (3 e item rest action things)
  from "3.prems" obtain a t1 t2 where
    a: "doSlice_loop e item action [] = (Ok a, t1)" and
    r: "doSlice_loop e rest action (things @ [YSeq a]) = (Ok out, t2)"
    by (auto simp: andThen_Ok)
  from "3.prems" have so: "list_all strings_only item" "list_all strings_only rest" by simp_all
  from "3.IH"(1)[OF so(1) a] "3.IH"(2)[OF a so(2) r] show ?case by simp
next
  case (4 e item rest action things)
  from "4.prems" obtain a t1 t2 where
    a: "doMap_loop e item action [] = (Ok a, t1)" and
    r: "doSlice_loop e rest action (things @ [YMap a]) = (Ok out, t2)"
    by (auto simp: andThen_Ok)
  from "4.prems" have so: "list_all (\<lambda>p. strings_only (snd p)) item" "distinct (map fst item)"
    "list_all strings_only rest" by simp_all
  from "4.IH"(1)[OF so(1,2) _ a] "4.IH"(2)[OF a so(3) r] show ?case by simp
next
  case (5 e strVal rest action things)
  from "5.prems" obtain a t1 t2 where
    a: "(if action = decrypt then andThen (decryptVal e strVal) (\<lambda>p. (Ok (YStr p), []))
         else if action = encrypt then
           (if \<not> isEncrypted strVal then andThen (EncryptSecret e strVal) (\<lambda>c. (Ok (YStr c), []))
            else (Ok YNull, []))
         else if action = validate then andThen (keyInfo e strVal) (\<lambda>k. (Ok (YStr k), []))
         else (Ok YNull, [])) = (Ok a, t1)" and
    r: "doSlice_loop e rest action (things @ [a]) = (Ok out, t2)"
    unfolding doSlice_loop.simps andThen_Ok by blast
  from "5.prems" have so: "list_all strings_only rest" by simp
  from "5.IH"[OF a so r] slice_leaf_shape[OF a] show ?case by simp
next
  case (10 e k val rest action ret)
  from "10.prems" obtain a t1 t2 where
    a: "doSlice_loop e val action [] = (Ok a, t1)" and
    r: "doMap_loop e rest action (AList.update k (YSeq a) ret) = (Ok mout, t2)"
    by (auto simp: andThen_Ok)
  from "10.prems" have so: "list_all strings_only val" "list_all (\<lambda>p. strings_only (snd p)) rest"
    "distinct (map fst rest)" and fresh: "k \<notin> fst ` set ret" "k \<notin> fst ` set rest"
    and disj: "fst ` set rest \<inter> fst ` set ret = {}"
    by auto
  have upd: "AList.update k (YSeq a) ret = ret @ [(k, YSeq a)]"
    by (rule update_fresh[OF fresh(1)])
  have disj': "fst ` set rest \<inter> fst ` set (AList.update k (YSeq a) ret) = {}"
    using disj fresh(2) by (auto simp: upd)
  from "10.IH"(1)[OF so(1) a] "10.IH"(2)[OF a so(2,3) disj' r] show ?case by (simp add: upd)
next
  case (11 e k val rest action ret)
  from "11.prems" obtain a t1 t2 where
    a: "doMap_loop e val action [] = (Ok a, t1)" and
    r: "doMap_loop e rest action (AList.update k (YMap a) ret) = (Ok mout, t2)"
    by (auto simp: andThen_Ok)
  from "11.prems" have so: "list_all (\<lambda>p. strings_only (snd p)) val" "distinct (map fst val)"
    "list_all (\<lambda>p. strings_only (snd p)) rest"
    "distinct (map fst rest)" and fresh: "k \<notin> fst ` set ret" "k \<notin> fst ` set rest"
    and disj: "fst ` set rest \<inter> fst ` set ret = {}"
    by auto
  have upd: "AList.update k (YMap a) ret = ret @ [(k, YMap a)]"
    by (rule update_fresh[OF fresh(1)])
  have disj': "fst ` set rest \<inter> fst ` set (AList.update k (YMap a) ret) = {}"
    using disj fresh(2) by (auto simp: upd)
  from "11.IH"(1)[OF so(1,2) _ a] "11.IH"(2)[OF a so(3,4) disj' r] show ?case by (simp add: upd)
next
  case (12 e k strVal rest action ret)
  from "12.prems" obtain a t1 t2 where
    a: "(if action = decrypt then andThen (decryptVal e strVal) (\<lambda>p. (Ok (YStr p), []))
         else if action = encrypt then
           (if \<not> isEncrypted strVal then andThen (EncryptSecret e strVal) (\<lambda>c. (Ok (YStr c), []))
            else (Ok (YStr strVal), []))
         else if action = validate then andThen (keyInfo e strVal) (\<lambda>k. (Ok (YStr k), []))
         else (Ok (YStr strVal), [])) = (Ok a, t1)" and
    r: "doMap_loop e rest action (AList.update k a ret) = (Ok mout, t2)"
    unfolding doMap_loop.simps andThen_Ok by blast
  from "12.prems" have so: "list_all (\<lambda>p. strings_only (snd p)) rest"
    "distinct (map fst rest)" and fresh: "k \<notin> fst ` set ret" "k \<notin> fst ` set rest"
    and disj: "fst ` set rest \<inter> fst ` set ret = {}"
    by auto
  have upd: "AList.update k a ret = ret @ [(k, a)]"
    by (rule update_fresh[OF fresh(1)])
  have disj': "fst ` set rest \<inter> fst ` set (AList.update k a ret) = {}"
    using disj fresh(2) by (auto simp: upd)
  from "12.IH"[OF a so disj' r] map_leaf_shape[OF a] show ?case by (simp add: upd)
qed simp_all

lemma ProcessValues_keeps_shape_of_string_trees:
  assumes "strings_only vals" and "ProcessValues e vals action = (Ok out, t)"
  shows "shape_of out = shape_of vals"
proof (cases vals)
  case (YStr strVal)
  with assms(2) show ?thesis
    using map_leaf_shape[of action e strVal out t] by (simp add: ProcessValues_def)
next
  case (YSeq items)
  with assms obtain things t1 where "doSlice_loop e items action [] = (Ok things, t1)" "out = YSeq things"
    by (auto simp: ProcessValues_def doSlice_def andThen_Ok)
  with walk_keeps_shape(1)[of items e action "[]" things t1] assms(1) YSeq show ?thesis by simp
next
  case (YMap m)
  with assms obtain ret t1 where "doMap_loop e m action [] = (Ok ret, t1)" "out = YMap ret"
    by (auto simp: ProcessValues_def doMap_def andThen_Ok)
  with walk_keeps_shape(2)[of m "[]" e action ret t1] assms(1) YMap show ?thesis by simp
qed (use assms in simp_all)

lemma andThen_returns:
  assumes "\<exists>a t. m = (Ok a, t)" and "\<And>a t. m = (Ok a, t) \<Longrightarrow> \<exists>b t'. f a = (Ok b, t')"
  shows "\<exists>b t'. andThen m f = (Ok b, t')"
  using assms by (fastforce simp: andThen_Ok)

lemma leaf_returns:
  assumes "libraries_succeed e"
  shows "\<exists>a t. decryptVal e strVal = (Ok a, t)"
    and "\<exists>a t. EncryptSecret e strVal = (Ok a, t)"
    and "\<exists>a t. keyInfo e strVal = (Ok a, t)"
proof -
  from assms obtain c k where c: "pgp_encrypt e strVal = Inr c" and k: "pgp_keyinfo e strVal = Inr k"
    and d: "pgp_decrypt e strVal \<noteq> DecodeNil"
    unfolding libraries_succeed_def by blast
  show "\<exists>a t. decryptVal e strVal = (Ok a, t)"
    using d by (cases "pgp_decrypt e strVal") (auto simp: decryptVal_def DecryptSecret_def andThen_def)
  show "\<exists>a t. EncryptSecret e strVal = (Ok a, t)"
    using c by (simp add: EncryptSecret_def)
  show "\<exists>a t. keyInfo e strVal = (Ok a, t)"
    using k by (simp add: keyInfo_def)
qed

lemma walk_returns:
  "libraries_succeed e \<Longrightarrow> list_all strings_only items
     \<Longrightarrow> \<exists>out t. doSlice_loop e items action things = (Ok out, t)"
  "libraries_succeed e \<Longrightarrow> list_all (\<lambda>p. strings_only (snd p)) m
     \<Longrightarrow> \<exists>out t. doMap_loop e m action ret = (Ok out, t)"
proof (induction e items action things and e m action ret
       rule: doSlice_loop_doMap_loop.induct)
  case (3 e item rest action things)
  then show ?case by (auto intro!: andThen_returns)
next
  case (4 e item rest action things)
  then show ?case by (auto intro!: andThen_returns)
next
  case (5 e strVal rest action things)
  then show ?case
    unfolding doSlice_loop.simps
    by (intro andThen_returns) (auto intro!: andThen_returns leaf_returns)
next
  case (10 e k val rest action ret)
  then show ?case by (auto intro!: andThen_returns)
next
  case (11 e k val rest action ret)
  then show ?case by (auto intro!: andThen_returns)
next
  case (12 e k strVal rest action ret)
  then show ?case
    unfolding doMap_loop.simps
    by (intro andThen_returns) (auto intro!: andThen_returns leaf_returns)
qed simp_all

text \<open>
  C8 fails for a nil element of a sequence: \<open>doSlice\<close> asks for the kind of the type of
  every item, and for nil that call panics. A nil root, an empty sequence and an empty
  mapping do come back as they are.
\<close>

theorem nil_sequence_element_panics:
  "ProcessValues e (YSeq (YNull # rest)) action = (Panic, [])
   \<and> ProcessValues e YNull action = (Ok YNull, [])
   \<and> ProcessValues e (YSeq []) action = (Ok (YSeq []), [])
   \<and> ProcessValues e (YMap []) action = (Ok (YMap []), [])"
  by (simp add: ProcessValues_def doSlice_def doMap_def andThen_def)

section \<open>Properties of reading, formatting and scoping\<close>

lemma Contains_dropCR:
  assumes "Contains l ''include:''"
  shows "Contains (dropCR l) ''include:''"
proof (cases "l \<noteq> [] \<and> last l = CHR 0x0D")
  case False
  then show ?thesis using assms by (auto simp: dropCR_def)
next
  case True
  from assms obtain ps ss where l: "l = ps @ ''include:'' @ ss"
    by (auto simp: Contains_def sublist_def)
  have "ss \<noteq> []"
  proof
    assume "ss = []"
    with l have "last l = CHR '':''" by simp
    with True show False by simp
  qed
  then have "butlast l = ps @ ''include:'' @ butlast ss"
    using l by (simp add: butlast_append)
  then show ?thesis using True by (auto simp: dropCR_def Contains_def sublist_def)
qed

lemma ScanForIncludes_loop_finds:
  assumes "l \<in> set ls" and "Contains l ''include:''"
  shows "\<exists>err. ScanForIncludes_loop ls = Some err"
  using assms by (induction ls) (auto simp: Contains_dropCR)

text \<open>
  C7. If one of the lines of a document contains \<open>include:\<close>, reading it returns an
  error and leaves the values empty, and the event list is empty: the YAML decoder has
  not been called. The action on the file then returns the empty buffer with that error,
  whatever the action is, again with no event: nothing was decoded, encrypted or
  decrypted.
\<close>

theorem include_directive_rejected_before_parsing:
  assumes "l \<in> set (lines_of buf)" and "Contains l ''include:''"
    and "fs filePath = Some (Regular buf)"
  shows "\<exists>err. ReadBytes e s buf = ((Some err, s\<lparr>Values := []\<rparr>), [])
           \<and> FileAction e fs s filePath action = (Ok (('''', Some err), s\<lparr>Values := []\<rparr>), [])"
proof -
  from ScanForIncludes_loop_finds[OF assms(1,2)]
  obtain err where "ScanForIncludes buf = Some err" by (auto simp: ScanForIncludes_def)
  then show ?thesis using assms(3)
    by (simp add: ReadBytes_def FileAction_def CheckForFile_def ReadSlsFile_def)
qed

lemmas eval_defs =
  ProcessDir_def basename_def FindSlsFiles_def CheckForDir_def Contains_def sublist_code(3)
  andThenW_def pure_def andThen_def shortFileName_def CipherTextYamlBuffer_def
  PlainTextYamlBuffer_def FileAction_def
  CheckForFile_def ReadSlsFile_def ScanForIncludes_def MaxScanTokenSize_def
  dropCR_def newline_def WriteSlsFile_def Let_def PerformAction_def
  validAction_def encrypt_def decrypt_def validate_def GetValueFromPath_def Yaml_Get_def ProcessValues_def
  isEncrypted_def pgpHeader_def EncryptSecret_def FormatBuffer_def marker_def toy_marshal_def
  RotateFile_def

lemma sample_fs_lookup:
  "sample_fs ''/srv/pillar'' = Some Directory"
  "sample_fs ''/srv/pillar/a.sls'' = Some (Regular include_text)"
  "sample_fs ''/srv/pillar/b.sls'' = Some (Regular sample_text)"
  by (simp_all add: sample_fs_def)

lemma include_text_rejected:
  "ReadBytes e s include_text = ((Some ''contains include directives'', s\<lparr>Values := []\<rparr>), [])"
  by (simp add: include_text_def ReadBytes_def eval_defs)

lemma sample_text_accepted:
  "ReadBytes sweep_env s sample_text
     = ((None, s\<lparr>Values := [(''pw'', YStr ''hunter2'')]\<rparr>), [UnmarshalCall sample_text])"
  by (simp add: ReadBytes_def sample_text_def sweep_env_def toy_env_def eval_defs)

theorem include_directive_rejected_before_parsing_witness:
  "''include: base'' \<in> set (lines_of include_text)
   \<and> Contains ''include: base'' ''include:''
   \<and> sample_fs ''/srv/pillar/a.sls'' = Some (Regular include_text)
   \<and> ReadBytes toy_env new_sls include_text = ((Some ''contains include directives'', new_sls), [])
   \<and> FileAction toy_env sample_fs new_sls ''/srv/pillar/a.sls'' decrypt
       = (Ok (('''', Some ''contains include directives''), new_sls), [])"
proof -
  have h1: "''include: base'' \<in> set (lines_of include_text)"
    by (simp add: include_text_def newline_def)
  have h2: "Contains ''include: base'' ''include:''"
    by (simp add: Contains_def sublist_code(3))
  have h3: "sample_fs ''/srv/pillar/a.sls'' = Some (Regular include_text)"
    by (rule sample_fs_lookup)
  from include_directive_rejected_before_parsing[of "''include: base''" include_text sample_fs
      "''/srv/pillar/a.sls''" toy_env new_sls decrypt, OF h1 h2 h3]
  obtain err where
    r: "ReadBytes toy_env new_sls include_text = ((Some err, new_sls\<lparr>Values := []\<rparr>), [])" and
    f: "FileAction toy_env sample_fs new_sls ''/srv/pillar/a.sls'' decrypt
          = (Ok (('''', Some err), new_sls\<lparr>Values := []\<rparr>), [])"
    by blast
  from r have "err = ''contains include directives''"
    by (simp add: include_text_rejected)
  with r f h1 h2 h3 show ?thesis by (simp add: new_sls_def)
qed

text \<open>
  The substring has no line end in it, so a document that contains it has a line that
  contains it.
\<close>

lemma prefix_in_first_line:
  assumes "newline \<notin> set w" and "w \<noteq> []" and "prefix w buf"
  shows "\<exists>l ls. lines_of buf = l # ls \<and> prefix w l"
  using assms
proof (induction buf arbitrary: w)
  case Nil
  then show ?case by simp
next
  case (Cons c s)
  from Cons.prems obtain w' where w: "w = c # w'" and p: "prefix w' s"
    by (cases w) auto
  from Cons.prems w have c: "c \<noteq> newline" by auto
  show ?case
  proof (cases "w' = []")
    case True
    with w c show ?thesis by (auto split: list.splits)
  next
    case False
    from Cons.prems w have "newline \<notin> set w'" by simp
    from Cons.IH[OF this False p] obtain l ls where "lines_of s = l # ls" "prefix w' l" by blast
    with w c show ?thesis by simp
  qed
qed

lemma substring_in_some_line:
  assumes "newline \<notin> set w" and "w \<noteq> []" and "sublist w buf"
  shows "\<exists>l \<in> set (lines_of buf). sublist w l"
  using assms(3)
proof (induction buf)
  case Nil
  with assms(2) show ?case by simp
next
  case (Cons c s)
  from Cons.prems consider "prefix w (c # s)" | "sublist w s"
    by (auto simp: sublist_Cons_right)
  then show ?case
  proof cases
    case 1
    from prefix_in_first_line[OF assms(1,2) 1] show ?thesis by auto
  next
    case 2
    from Cons.IH[OF 2] obtain l where l: "l \<in> set (lines_of s)" "sublist w l" by blast
    show ?thesis
    proof (cases "c = newline")
      case True
      with l show ?thesis by auto
    next
      case False
      from l obtain l0 ls where s: "lines_of s = l0 # ls" by (cases "lines_of s") auto
      with l consider "l = l0" | "l \<in> set ls" by auto
      then show ?thesis
      proof cases
        case 1
        with l have "sublist w (c # l0)" by (simp add: sublist_Cons_right)
        with False s show ?thesis by simp
      next
        case 2
        with False s l show ?thesis by auto
      qed
    qed
  qed
qed

lemma document_with_include_has_such_a_line:
  assumes "Contains buf ''include:''"
  shows "\<exists>l \<in> set (lines_of buf). Contains l ''include:''"
  using substring_in_some_line[of "''include:''" buf] assms
  by (simp add: Contains_def newline_def)

text \<open>
  C9. The buffer that \<open>FormatBuffer\<close> returns is the two lines \<open>#!yaml|gpg\<close> and an
  empty line followed by the serialized values, for every action but \<open>validate\<close>; for
  \<open>validate\<close> it is the serialized values alone. It returns whenever the serializer
  does, and the buffer of \<open>PerformAction\<close> is that buffer for the values it leaves in
  the document.
\<close>

theorem marker_on_every_output_but_validate:
  "(yaml_marshal e (Values s) = Inr out \<longrightarrow>
      fst (FormatBuffer e s action)
        = Ok (if action = validate then out else ''#!yaml|gpg'' @ [CHR 0x0A, CHR 0x0A] @ out))
   \<and> (fst (FormatBuffer e s action) = Ok buffer \<longrightarrow>
        (\<exists>out. yaml_marshal e (Values s) = Inr out
           \<and> buffer = (if action = validate then out else ''#!yaml|gpg'' @ [CHR 0x0A, CHR 0x0A] @ out)))
   \<and> (fst (PerformAction e s action) = Ok (buffer', s1) \<longrightarrow>
        (\<exists>out. yaml_marshal e (Values s1) = Inr out
           \<and> buffer' = (if action = validate then out else ''#!yaml|gpg'' @ [CHR 0x0A, CHR 0x0A] @ out)))"
proof -
  have fb: "fst (FormatBuffer e s action) = Ok b \<longleftrightarrow>
      (\<exists>out. yaml_marshal e (Values s) = Inr out
         \<and> b = (if action = validate then out else ''#!yaml|gpg'' @ [CHR 0x0A, CHR 0x0A] @ out))"
    for s b
    by (cases "yaml_marshal e (Values s)")
       (auto simp: FormatBuffer_def andThen_def marker_def newline_def)
  have pa: "fst (PerformAction e s action) = Ok (buffer', s1) \<Longrightarrow> fst (FormatBuffer e s1 action) = Ok buffer'"
    by (auto simp: PerformAction_def andThen_def Let_def split: if_splits prod.splits res.splits)
  show ?thesis using fb pa by auto
qed

theorem marker_on_every_output_but_validate_witness:
  "yaml_marshal toy_env (Values pw_doc) = Inr (''pw: hunter2'' @ [CHR 0x0A])
   \<and> fst (FormatBuffer toy_env pw_doc encrypt)
       = Ok (''#!yaml|gpg'' @ [CHR 0x0A, CHR 0x0A] @ ''pw: hunter2'' @ [CHR 0x0A])
   \<and> fst (FormatBuffer toy_env pw_doc validate) = Ok (''pw: hunter2'' @ [CHR 0x0A])"
proof -
  have m: "yaml_marshal toy_env (Values pw_doc) = Inr (''pw: hunter2'' @ [CHR 0x0A])"
    by (simp add: toy_env_def pw_doc_def toy_marshal_def newline_def)
  have ne: "encrypt \<noteq> validate" by (simp add: action_defs)
  have a: "fst (FormatBuffer toy_env pw_doc action)
             = Ok (if action = validate then ''pw: hunter2'' @ [CHR 0x0A]
                   else ''#!yaml|gpg'' @ [CHR 0x0A, CHR 0x0A] @ ''pw: hunter2'' @ [CHR 0x0A])"
    for action
    using marker_on_every_output_but_validate[of toy_env pw_doc "''pw: hunter2'' @ [CHR 0x0A]" action] m
    by blast
  have enc: "fst (FormatBuffer toy_env pw_doc encrypt)
               = Ok (''#!yaml|gpg'' @ [CHR 0x0A, CHR 0x0A] @ ''pw: hunter2'' @ [CHR 0x0A])"
    by (simp only: a[of encrypt] ne if_False)
  have val: "fst (FormatBuffer toy_env pw_doc validate) = Ok (''pw: hunter2'' @ [CHR 0x0A])"
    by (simp only: a[of validate] simp_thms if_True)
  from m enc val show ?thesis by blast
qed

text \<open>
  C6 fails for a top-level key that contains a colon. \<open>PerformAction\<close> fetches the value
  of every key with \<open>GetValueFromPath\<close>, which splits the key at its colons and follows
  the pieces as a path. For the key \<open>a:b\<close> outside the scope that path leads nowhere, and
  the document comes out with nil in place of the value.
\<close>

theorem scope_loses_value_of_key_with_colon:
  "GetValueFromPath colon_doc ''a:b'' = YNull
   \<and> PerformAction_loop e colon_doc action (map fst (Values colon_doc)) []
       = (Ok [(''a:b'', YNull), (''secure_vars'', YMap [])], [])
   \<and> fst (PerformAction toy_env colon_doc encrypt)
       = Ok (marker @ toy_marshal [(''a:b'', YNull), (''secure_vars'', YMap [])],
             colon_doc\<lparr>Values := [(''a:b'', YNull), (''secure_vars'', YMap [])]\<rparr>)"
  by (simp add: colon_doc_def GetValueFromPath_def Yaml_Get_def PerformAction_def validAction_def
      ProcessValues_def doMap_def andThen_def FormatBuffer_def toy_env_def action_defs)

text \<open>
  What does hold of the scope: a key outside it that has no colon keeps its value, and
  every event of the loop is an event of the walk over the value under the scope.
\<close>

lemma Split_without_separator: "sep \<notin> set s \<Longrightarrow> Split s sep = [s]"
  by (induction s) auto

lemma GetValueFromPath_plain_key:
  assumes "CHR '':'' \<notin> set key"
  shows "GetValueFromPath s key = (case map_of (Values s) key of None \<Rightarrow> YNull | Some v \<Rightarrow> v)"
  using assms by (simp add: GetValueFromPath_def Yaml_Get_def Split_without_separator split: option.splits)

lemma PerformAction_loop_scoped:
  assumes "TopLevelElement s \<noteq> ''''"
    and "PerformAction_loop e s action keys stuff = (Ok out, t)"
  shows "(\<forall>k. k \<notin> set keys \<longrightarrow> map_of out k = map_of stuff k)
       \<and> (\<forall>k \<in> set keys. k \<noteq> TopLevelElement s \<longrightarrow> map_of out k = Some (GetValueFromPath s k))
       \<and> set t \<subseteq> set (snd (ProcessValues e (GetValueFromPath s (TopLevelElement s)) action))"
  using assms(2)
proof (induction keys arbitrary: stuff out t)
  case Nil
  then show ?case by simp
next
  case (Cons key keys)
  show ?case
  proof (cases "TopLevelElement s = key")
    case True
    with Cons.prems assms(1) obtain v t1 t2 where
      pv: "ProcessValues e (GetValueFromPath s key) action = (Ok v, t1)" and
      rest: "PerformAction_loop e s action keys (AList.update key v stuff) = (Ok out, t2)" and
      t: "t = t1 @ t2"
      by (auto simp: andThen_Ok Let_def)
    from Cons.IH[OF rest] pv t True show ?thesis
      by (auto simp: update_conv')
  next
    case False
    with Cons.prems assms(1) have
      rest: "PerformAction_loop e s action keys (AList.update key (GetValueFromPath s key) stuff) = (Ok out, t)"
      by (simp add: Let_def)
    from Cons.IH[OF rest] False show ?thesis
      by (cases "key \<in> set keys") (auto simp: update_conv')
  qed
qed

lemma scope_isolation_for_plain_keys:
  assumes "TopLevelElement s \<noteq> ''''"
    and "PerformAction_loop e s action (map fst (Values s)) [] = (Ok out, t)"
    and "map_of (Values s) key = Some v"
    and "key \<noteq> TopLevelElement s"
    and "CHR '':'' \<notin> set key"
  shows "map_of out key = Some v
       \<and> set t \<subseteq> set (snd (ProcessValues e (GetValueFromPath s (TopLevelElement s)) action))"
proof -
  from assms(3) have "key \<in> set (map fst (Values s))"
    by (metis map_of_eq_None_iff option.distinct(1) set_map)
  with PerformAction_loop_scoped[OF assms(1,2)] assms(4)
  have "map_of out key = Some (GetValueFromPath s key)"
    and "set t \<subseteq> set (snd (ProcessValues e (GetValueFromPath s (TopLevelElement s)) action))"
    by auto
  with GetValueFromPath_plain_key[OF assms(5), of s] assms(3) show ?thesis by simp
qed

section \<open>Properties of the sweep and of the rotation\<close>

text \<open>
  C4 fails: the loop of \<open>ProcessDir\<close> writes the buffer before it looks at the error. For
  a file that is rejected the buffer is empty, so the file is overwritten with nothing;
  the warning is logged after that, and the sweep goes on to the next file.
\<close>

theorem sweep_overwrites_file_that_failed:
  "sample_fs ''/srv/pillar/a.sls'' = Some (Regular include_text)
   \<and> fst (CipherTextYamlBuffer sweep_env sample_fs new_sls ''/srv/pillar/a.sls'')
       = Ok (('''', Some ''contains include directives''), new_sls)
   \<and> ProcessDir sweep_env new_sls ''/srv/pillar'' encrypt sample_fs
       = (Ok (new_sls\<lparr>Values := [(''pw'', YStr (pgpHeader @ ''hunter2''))]\<rparr>),
          sample_fs(''/srv/pillar/a.sls'' \<mapsto> Regular '''',
                    ''/srv/pillar/b.sls'' \<mapsto> Regular (''#!yaml|gpg'' @ [newline, newline]
                        @ ''pw: '' @ pgpHeader @ ''hunter2'' @ [newline])),
          [Log InfoLevel ''processing pillar/a.sls'',
           Log InfoLevel (''wrote out to file: '' @ [CHR 0x27] @ ''pillar/a.sls'' @ [CHR 0x27]),
           Log WarnLevel ''contains include directives'',
           Log InfoLevel ''processing pillar/b.sls'',
           UnmarshalCall sample_text,
           EncryptCall ''hunter2'',
           Log InfoLevel (''wrote out to file: '' @ [CHR 0x27] @ ''pillar/b.sls'' @ [CHR 0x27])])"
proof -
  have env: "getwd sweep_env = Inr ''/srv''" "mkdirAll sweep_env = (\<lambda>p. None)"
    "walk sweep_env ''/srv/pillar'' = Some [(''/srv/pillar'', ''pillar'', True),
                                              (''/srv/pillar/a.sls'', ''a.sls'', False),
                                              (''/srv/pillar/b.sls'', ''b.sls'', False)]"
    "pgp_encrypt sweep_env = (\<lambda>p. Inr (pgpHeader @ p))"
    "yaml_marshal sweep_env = (\<lambda>vals. Inr (toy_marshal vals))"
    by (simp_all add: sweep_env_def toy_env_def)
  show ?thesis
    by (simp add: sample_fs_lookup include_text_rejected sample_text_accepted new_sls_def env eval_defs)
qed

text \<open>
  C1 fails: \<open>RotateFile\<close> logs the error of the decrypting pass and carries on. For a
  file that is rejected the document is empty by then, so the file is overwritten with
  the marker and an empty mapping.
\<close>

theorem rotation_overwrites_file_after_failed_read:
  "sample_fs ''/srv/pillar/a.sls'' = Some (Regular include_text)
   \<and> fst (PlainTextYamlBuffer toy_env sample_fs new_sls ''/srv/pillar/a.sls'')
       = Ok (('''', Some ''contains include directives''), new_sls)
   \<and> RotateFile toy_env new_sls ''/srv/pillar/a.sls'' sample_fs
       = (Ok new_sls,
          sample_fs(''/srv/pillar/a.sls'' \<mapsto> Regular (''#!yaml|gpg'' @ [newline, newline] @ ''{}'' @ [newline])),
          [Log InfoLevel ''processing pillar/a.sls'',
           Log ErrorLevel ''contains include directives'',
           Log ErrorLevel ''no values to format'',
           Log InfoLevel (''wrote out to file: '' @ [CHR 0x27] @ ''pillar/a.sls'' @ [CHR 0x27])])"
  by (simp add: sample_fs_lookup include_text_rejected new_sls_def toy_env_def eval_defs)

end
